theory Spec2Isabelle
  imports Complex_Main "HOL-Library.Word" "HOL-Library.Char_ord" "HOL-Library.List_Lexorder"
begin

unbundle bit_operations_syntax

section \<open>Python strings, slices and ranges\<close>

text \<open>
  The program is \<^verbatim>\<open>app.py\<close>: a Flask service whose core is
  \<^verbatim>\<open>winnowing_fingerprint\<close>, \<^verbatim>\<open>compare_documents\<close> and the pairwise loop of
  \<^verbatim>\<open>detect_plagiarism\<close>.

  A text is a \<^typ>\<open>string\<close>: a list of characters with code points U+0000 to U+00FF.
  On that range the functions below are Python's \<^verbatim>\<open>str.lower\<close>, \<^verbatim>\<open>str.isspace\<close>
  (which is also what \<^verbatim>\<open>\s\<close> matches in a \<^verbatim>\<open>str\<close> pattern) and the character
  class \<^verbatim>\<open>[a-z]\<close>. The parameters \<^verbatim>\<open>k\<close> and \<^verbatim>\<open>window_size\<close> are Python
  integers: \<^typ>\<open>int\<close>, of either sign. A Python \<^verbatim>\<open>float\<close> is modelled by the exact
  rational it approximates.
\<close>

definition lower_char :: "char \<Rightarrow> char" where
  "lower_char c =
     (let n = (of_char c :: nat)
      in if (65 \<le> n \<and> n \<le> 90) \<or> (192 \<le> n \<and> n \<le> 222 \<and> n \<noteq> 215)
         then char_of (n + 32) else c)"

definition lower :: "string \<Rightarrow> string" where
  \<comment> \<open>\<^verbatim>\<open>text.lower()\<close>\<close>
  "lower s = map lower_char s"

definition is_az :: "char \<Rightarrow> bool" where
  \<comment> \<open>the class \<^verbatim>\<open>[a-z]\<close>\<close>
  "is_az c = (97 \<le> (of_char c :: nat) \<and> (of_char c :: nat) \<le> 122)"

definition isspace :: "char \<Rightarrow> bool" where
  \<comment> \<open>\<^verbatim>\<open>\s\<close>: tab to carriage return, the separators U+001C to U+001F, space,
      U+0085 and U+00A0\<close>
  "isspace c =
     (let n = (of_char c :: nat)
      in (9 \<le> n \<and> n \<le> 13) \<or> (28 \<le> n \<and> n \<le> 32) \<or> n = 133 \<or> n = 160)"

definition sub_not_az_space :: "string \<Rightarrow> string" where
  \<comment> \<open>\<^verbatim>\<open>re.sub(r'[^a-z\s]', '', text)\<close>\<close>
  "sub_not_az_space s = filter (\<lambda>c. is_az c \<or> isspace c) s"

function sub_spaces :: "string \<Rightarrow> string" where
  \<comment> \<open>\<^verbatim>\<open>re.sub(r'\s+', ' ', text)\<close>: every maximal run of whitespace becomes one space\<close>
  "sub_spaces [] = []"
| "sub_spaces (c # cs) =
     (if isspace c then CHR '' '' # sub_spaces (dropWhile isspace cs)
      else c # sub_spaces cs)"
  by pat_completeness auto
termination
  by (relation "measure length") (auto simp: length_dropWhile_le less_Suc_eq_le)

definition strip :: "string \<Rightarrow> string" where
  \<comment> \<open>\<^verbatim>\<open>str.strip()\<close>: leading and trailing whitespace removed\<close>
  "strip s = rev (dropWhile isspace (rev (dropWhile isspace s)))"

definition replace_space :: "string \<Rightarrow> string" where
  \<comment> \<open>\<^verbatim>\<open>text.replace(' ', '')\<close>\<close>
  "replace_space s = filter (\<lambda>c. c \<noteq> CHR '' '') s"

definition text_for_shingles :: "string \<Rightarrow> string" where
  \<comment> \<open>lines 55 to 59 of \<^verbatim>\<open>winnowing_fingerprint\<close>\<close>
  "text_for_shingles t = replace_space (strip (sub_spaces (sub_not_az_space (lower t))))"

definition py_index :: "nat \<Rightarrow> int \<Rightarrow> nat" where
  \<comment> \<open>how a slice bound is read against a sequence of length \<open>n\<close>: a negative bound
      counts from the end, and the result is clamped to \<open>0..n\<close>\<close>
  "py_index n i = (if i < 0 then nat (int n + i) else min n (nat i))"

definition py_slice :: "'a list \<Rightarrow> int \<Rightarrow> int \<Rightarrow> 'a list" where
  \<comment> \<open>\<^verbatim>\<open>xs[i:j]\<close>\<close>
  "py_slice xs i j =
     (let a = py_index (length xs) i; b = py_index (length xs) j
      in take (b - a) (drop a xs))"

definition py_range :: "int \<Rightarrow> int list" where
  \<comment> \<open>\<^verbatim>\<open>range(m)\<close>: empty when \<open>m \<le> 0\<close>\<close>
  "py_range m = map int [0..<nat m]"

section \<open>SHA-256 and its hexadecimal digest\<close>

text \<open>
  \<^verbatim>\<open>hashlib.sha256(shingle.encode('utf-8')).hexdigest()\<close>: the UTF-8 bytes of the
  shingle, hashed as FIPS 180-4 describes, printed as 64 lower-case hexadecimal digits.
\<close>

type_synonym byte = "8 word"
type_synonym w32 = "32 word"
type_synonym state256 = "w32 \<times> w32 \<times> w32 \<times> w32 \<times> w32 \<times> w32 \<times> w32 \<times> w32"

definition encode_utf8 :: "string \<Rightarrow> byte list" where
  "encode_utf8 s =
     concat (map (\<lambda>c. let n = (of_char c :: nat)
                      in if n < 128 then [of_nat n]
                         else [of_nat (192 + n div 64), of_nat (128 + n mod 64)]) s)"

definition K256 :: "w32 list" where
  \<comment> \<open>the sixty-four round constants, written in decimal\<close>
  "K256 =
    [1116352408, 1899447441, 3049323471, 3921009573, 961987163, 1508970993,
     2453635748, 2870763221, 3624381080, 310598401, 607225278, 1426881987,
     1925078388, 2162078206, 2614888103, 3248222580, 3835390401, 4022224774,
     264347078, 604807628, 770255983, 1249150122, 1555081692, 1996064986,
     2554220882, 2821834349, 2952996808, 3210313671, 3336571891, 3584528711,
     113926993, 338241895, 666307205, 773529912, 1294757372, 1396182291,
     1695183700, 1986661051, 2177026350, 2456956037, 2730485921, 2820302411,
     3259730800, 3345764771, 3516065817, 3600352804, 4094571909, 275423344,
     430227734, 506948616, 659060556, 883997877, 958139571, 1322822218,
     1537002063, 1747873779, 1955562222, 2024104815, 2227730452, 2361852424,
     2428436474, 2756734187, 3204031479, 3329325298]"

definition H256 :: state256 where
  \<comment> \<open>the initial hash value, written in decimal\<close>
  "H256 =
    (1779033703, 3144134277, 1013904242, 2773480762,
     1359893119, 2600822924, 528734635, 1541459225)"

definition Ch :: "w32 \<Rightarrow> w32 \<Rightarrow> w32 \<Rightarrow> w32" where
  "Ch x y z = (x AND y) XOR (NOT x AND z)"

definition Maj :: "w32 \<Rightarrow> w32 \<Rightarrow> w32 \<Rightarrow> w32" where
  "Maj x y z = (x AND y) XOR (x AND z) XOR (y AND z)"

definition rotr :: "nat \<Rightarrow> w32 \<Rightarrow> w32" where
  \<comment> \<open>rotation to the right by \<open>n\<close> bits, \<open>0 < n < 32\<close>\<close>
  "rotr n x = drop_bit n x OR push_bit (32 - n) x"

definition bsig0 :: "w32 \<Rightarrow> w32" where
  "bsig0 x = rotr 2 x XOR rotr 13 x XOR rotr 22 x"

definition bsig1 :: "w32 \<Rightarrow> w32" where
  "bsig1 x = rotr 6 x XOR rotr 11 x XOR rotr 25 x"

definition ssig0 :: "w32 \<Rightarrow> w32" where
  "ssig0 x = rotr 7 x XOR rotr 18 x XOR drop_bit 3 x"

definition ssig1 :: "w32 \<Rightarrow> w32" where
  "ssig1 x = rotr 17 x XOR rotr 19 x XOR drop_bit 10 x"

definition be64 :: "nat \<Rightarrow> byte list" where
  \<comment> \<open>a length in bits, as eight bytes, most significant first\<close>
  "be64 n = map (\<lambda>i. ucast (drop_bit (8 * (7 - i)) (of_nat n :: 64 word))) [0..<8]"

definition pad :: "byte list \<Rightarrow> byte list" where
  "pad m = m @ [128] @ replicate ((64 - (length m + 9) mod 64) mod 64) 0
             @ be64 (8 * length m)"

fun be32s :: "byte list \<Rightarrow> w32 list" where
  \<comment> \<open>four bytes to a word, most significant first\<close>
  "be32s (a # b # c # d # bs) =
     (push_bit 24 (ucast a) OR push_bit 16 (ucast b) OR push_bit 8 (ucast c) OR ucast d) # be32s bs"
| "be32s _ = []"

fun blocks :: "nat \<Rightarrow> w32 list \<Rightarrow> w32 list list" where
  \<comment> \<open>\<open>blocks n ws\<close>: the first \<open>n\<close> blocks of sixteen words\<close>
  "blocks 0 ws = []"
| "blocks (Suc n) ws = take 16 ws # blocks n (drop 16 ws)"

definition schedule :: "w32 list \<Rightarrow> w32 list" where
  \<comment> \<open>the sixteen words of a block extended to the sixty-four of the message schedule\<close>
  "schedule block =
     fold (\<lambda>t ws. ws @ [ssig1 (ws ! (t - 2)) + ws ! (t - 7) + ssig0 (ws ! (t - 15)) + ws ! (t - 16)])
       [16..<64] block"

fun round256 :: "w32 \<times> w32 \<Rightarrow> state256 \<Rightarrow> state256" where
  "round256 (kt, wt) (a, b, c, d, e, f, g, h) =
     (let t1 = h + bsig1 e + Ch e f g + kt + wt;
          t2 = bsig0 a + Maj a b c
      in (t1 + t2, a, b, c, d + t1, e, f, g))"

fun add256 :: "state256 \<Rightarrow> state256 \<Rightarrow> state256" where
  "add256 (a, b, c, d, e, f, g, h) (a', b', c', d', e', f', g', h') =
     (a + a', b + b', c + c', d + d', e + e', f + f', g + g', h + h')"

definition compress :: "w32 list \<Rightarrow> state256 \<Rightarrow> state256" where
  "compress block st = add256 st (fold round256 (zip K256 (schedule block)) st)"

fun words256 :: "state256 \<Rightarrow> w32 list" where
  "words256 (a, b, c, d, e, f, g, h) = [a, b, c, d, e, f, g, h]"

definition sha256 :: "byte list \<Rightarrow> w32 list" where
  "sha256 m =
     (let p = pad m
      in words256 (fold compress (blocks (length p div 64) (be32s p)) H256))"

definition hexchar :: "w32 \<Rightarrow> char" where
  \<comment> \<open>the digit for the low four bits\<close>
  "hexchar d = ''0123456789abcdef'' ! unat (d AND 15)"

definition hex32 :: "w32 \<Rightarrow> string" where
  "hex32 w = map (\<lambda>i. hexchar (drop_bit (4 * (7 - i)) w)) [0..<8]"

definition sha256_hexdigest :: "string \<Rightarrow> string" where
  "sha256_hexdigest s = concat (map hex32 (sha256 (encode_utf8 s)))"

section \<open>The fingerprint of a text\<close>

datatype error = ValueError | ZeroDivisionError

definition py_min :: "string list \<Rightarrow> error + string" where
  \<comment> \<open>\<^verbatim>\<open>min(window)\<close> on strings: the first smallest element in the order of code points,
      \<^verbatim>\<open>ValueError\<close> on an empty sequence\<close>
  "py_min xs =
     (case xs of
        [] \<Rightarrow> Inl ValueError
      | x # ys \<Rightarrow> Inr (fold (\<lambda>y m. if y < m then y else m) ys x))"

fun windows_loop :: "string list \<Rightarrow> int \<Rightarrow> int list \<Rightarrow> string list \<Rightarrow> error + string list" where
  \<comment> \<open>the \<^verbatim>\<open>for i in range(...)\<close> loop of lines 70 to 73, on the indices still to visit
      and the fingerprints appended so far\<close>
  "windows_loop hashes window_size [] fingerprints = Inr fingerprints"
| "windows_loop hashes window_size (i # rest) fingerprints =
     (case py_min (py_slice hashes i (i + window_size)) of
        Inl e \<Rightarrow> Inl e
      | Inr min_hash \<Rightarrow> windows_loop hashes window_size rest (fingerprints @ [min_hash]))"

definition winnowing_fingerprint :: "string \<Rightarrow> int \<Rightarrow> int \<Rightarrow> error + string list" where
  "winnowing_fingerprint doc k window_size =
     (let s = text_for_shingles doc
      in if int (length s) < k then Inr []
         else
           let shingles = map (\<lambda>i. py_slice s i (i + k)) (py_range (int (length s) - k + 1));
               hashes = map sha256_hexdigest shingles
           in windows_loop hashes window_size
                (py_range (int (length hashes) - window_size + 1)) [])"

section \<open>The similarity of two texts\<close>

definition py_truediv :: "nat \<Rightarrow> nat \<Rightarrow> error + rat" where
  \<comment> \<open>\<^verbatim>\<open>a / b\<close> on two lengths\<close>
  "py_truediv a b = (if b = 0 then Inl ZeroDivisionError else Inr (of_nat a / of_nat b))"

definition compare_documents :: "string \<Rightarrow> string \<Rightarrow> int \<Rightarrow> int \<Rightarrow> error + rat" where
  "compare_documents doc1 doc2 k window_size =
     (case winnowing_fingerprint doc1 k window_size of
        Inl e \<Rightarrow> Inl e
      | Inr f1 \<Rightarrow>
         (case winnowing_fingerprint doc2 k window_size of
            Inl e \<Rightarrow> Inl e
          | Inr f2 \<Rightarrow>
             (let set_f1 = set f1;
                  set_f2 = set f2;
                  common_fingerprints = set_f1 \<inter> set_f2;
                  union_fingerprints = set_f1 \<union> set_f2
              in if set_f1 = {} \<or> set_f2 = {} then Inr 0
                 else
                   (case py_truediv (card common_fingerprints) (card union_fingerprints) of
                      Inl e \<Rightarrow> Inl e
                    | Inr q \<Rightarrow> Inr (q * 100)))))"

section \<open>All pairs of a batch\<close>

text \<open>
  \<^verbatim>\<open>detect_plagiarism\<close> reads the documents and the two parameters from the request,
  compares every pair, appends one result per pair and stores one row per pair in the
  table \<^verbatim>\<open>hasil_cek\<close>. The table is a list of rows, passed in and returned; the session
  identifier (the current time in the source) is an argument. An exception leaves the
  rows already committed in the table.
\<close>

record document =
  doc_name :: string
  doc_text :: string

record pair_result =
  doc1_index :: nat
  doc2_index :: nat
  doc1_name :: string
  doc2_name :: string
  similarity :: rat
  session_id :: string

record hasil_cek =
  row_session_id :: string
  row_doc1_name :: string
  row_doc2_name :: string
  row_doc1_text :: string
  row_doc2_text :: string
  row_similarity :: rat

definition save_result_to_db ::
  "hasil_cek list \<Rightarrow> string \<Rightarrow> string \<Rightarrow> string \<Rightarrow> string \<Rightarrow> string \<Rightarrow> rat \<Rightarrow> hasil_cek list" where
  "save_result_to_db db sid d1_name d2_name d1_text d2_text sim =
     db @ [\<lparr>row_session_id = sid, row_doc1_name = d1_name, row_doc2_name = d2_name,
            row_doc1_text = d1_text, row_doc2_text = d2_text, row_similarity = sim\<rparr>]"

fun inner_loop ::
  "string \<Rightarrow> document list \<Rightarrow> int \<Rightarrow> int \<Rightarrow> nat \<Rightarrow> nat list
     \<Rightarrow> pair_result list \<times> hasil_cek list \<Rightarrow> (error + pair_result list) \<times> hasil_cek list" where
  \<comment> \<open>\<^verbatim>\<open>for j in range(i + 1, len(documents))\<close>, on the indices \<open>j\<close> still to visit\<close>
  "inner_loop sid documents k window_size i [] (similarities, db) = (Inr similarities, db)"
| "inner_loop sid documents k window_size i (j # rest) (similarities, db) =
     (let doc1 = documents ! i;
          doc2 = documents ! j
      in case compare_documents (doc_text doc1) (doc_text doc2) k window_size of
           Inl e \<Rightarrow> (Inl e, db)
         | Inr sim \<Rightarrow>
             inner_loop sid documents k window_size i rest
               (similarities @
                  [\<lparr>doc1_index = i, doc2_index = j, doc1_name = doc_name doc1,
                    doc2_name = doc_name doc2, similarity = sim, session_id = sid\<rparr>],
                save_result_to_db db sid (doc_name doc1) (doc_name doc2)
                  (doc_text doc1) (doc_text doc2) sim))"

fun outer_loop ::
  "string \<Rightarrow> document list \<Rightarrow> int \<Rightarrow> int \<Rightarrow> nat list
     \<Rightarrow> pair_result list \<times> hasil_cek list \<Rightarrow> (error + pair_result list) \<times> hasil_cek list" where
  \<comment> \<open>\<^verbatim>\<open>for i in range(len(documents))\<close>, on the indices \<open>i\<close> still to visit\<close>
  "outer_loop sid documents k window_size [] (similarities, db) = (Inr similarities, db)"
| "outer_loop sid documents k window_size (i # rest) (similarities, db) =
     (case inner_loop sid documents k window_size i [i + 1..<length documents] (similarities, db) of
        (Inl e, db') \<Rightarrow> (Inl e, db')
      | (Inr similarities', db') \<Rightarrow>
          outer_loop sid documents k window_size rest (similarities', db'))"

definition detect_plagiarism ::
  "string \<Rightarrow> hasil_cek list \<Rightarrow> document list \<Rightarrow> int \<Rightarrow> int
     \<Rightarrow> (error + pair_result list) \<times> hasil_cek list" where
  "detect_plagiarism sid db documents k window_size =
     outer_loop sid documents k window_size [0..<length documents] ([], db)"

section \<open>The specification's wording, for comparison with the code\<close>

text \<open>
  The shingler and the winnowing selector as the specification words them, on a dense string
  and natural numbers \<open>k\<close> and \<open>w\<close>; the pair of indices of a result and the ascending
  order of such pairs; and the relation between a text and the same text with the case of
  letters changed and with characters other than letters inserted or removed.
\<close>

definition spec_shingles :: "string \<Rightarrow> nat \<Rightarrow> string list" where
  "spec_shingles s k =
     (if length s < k then [] else map (\<lambda>i. take k (drop i s)) [0..<length s - k + 1])"

definition spec_winnowing :: "string list \<Rightarrow> nat \<Rightarrow> string list" where
  "spec_winnowing h w =
     (if length h < w then []
      else map (\<lambda>i. Min (set (take w (drop i h)))) [0..<length h - w + 1])"

definition spec_fingerprint :: "string \<Rightarrow> nat \<Rightarrow> nat \<Rightarrow> string list" where
  "spec_fingerprint doc k w =
     spec_winnowing (map sha256_hexdigest (spec_shingles (text_for_shingles doc) k)) w"

definition index_pair :: "pair_result \<Rightarrow> nat \<times> nat" where
  \<comment> \<open>the two indices a result carries\<close>
  "index_pair r = (doc1_index r, doc2_index r)"

definition index_less :: "nat \<times> nat \<Rightarrow> nat \<times> nat \<Rightarrow> bool" where
  \<comment> \<open>ascending \<open>(i, j)\<close> order: by \<open>i\<close>, then by \<open>j\<close>\<close>
  "index_less p q = (fst p < fst q \<or> (fst p = fst q \<and> snd p < snd q))"




section \<open>Normalisation, windows and loops\<close>









lemma py_min_Min: "xs \<noteq> [] \<Longrightarrow> py_min xs = Inr (Min (set xs))"
proof (cases xs)
  case Nil
  then show "xs \<noteq> [] \<Longrightarrow> ?thesis" by simp
next
  case (Cons x ys)
  have "(\<lambda>(y::string) m. if y < m then y else m) = min"
    by (intro ext) (auto simp: min_def)
  then show ?thesis
    using Min.set_eq_fold [of x ys] by (simp add: py_min_def Cons)
qed

lemma windows_loop_all_nonempty:
  "(\<And>i. i \<in> set idx \<Longrightarrow> py_slice hashes i (i + w) \<noteq> []) \<Longrightarrow>
   windows_loop hashes w idx acc
     = Inr (acc @ map (\<lambda>i. Min (set (py_slice hashes i (i + w)))) idx)"
  by (induction idx arbitrary: acc) (simp_all add: py_min_Min)

lemma windows_loop_empty_window:
  "i \<in> set idx \<Longrightarrow> py_slice hashes i (i + w) = [] \<Longrightarrow>
   windows_loop hashes w idx acc = Inl ValueError"
proof (induction idx arbitrary: acc)
  case Nil
  then show ?case by simp
next
  case (Cons j idx)
  show ?case
  proof (cases "py_min (py_slice hashes j (j + w))")
    case (Inl e)
    then have "e = ValueError"
      by (auto simp: py_min_def split: list.splits)
    with Inl show ?thesis by simp
  next
    case (Inr m)
    then have "j \<noteq> i" using Cons.prems(2) by (auto simp: py_min_def)
    with Cons.prems have "i \<in> set idx" by simp
    with Cons.IH Cons.prems(2) Inr show ?thesis by simp
  qed
qed

lemma py_slice_forward:
  "0 \<le> i \<Longrightarrow> 0 \<le> j \<Longrightarrow> py_slice xs i j = take (nat j - nat i) (drop (nat i) xs)"
  by (auto simp: py_slice_def py_index_def Let_def min_def)

lemma py_range_upt: "py_range (int n - k + 1) = map int [0..<n + 1 - nat k]" if "0 \<le> k"
proof -
  from that have "nat (int n - k + 1) = n + 1 - nat k" by linarith
  then show ?thesis by (simp add: py_range_def)
qed

lemma shingles_forward:
  "0 \<le> k \<Longrightarrow>
   map (\<lambda>i. py_slice s i (i + k)) (map int idx) = map (\<lambda>i. take (nat k) (drop i s)) idx"
  by (simp add: py_slice_forward nat_add_distrib)

lemma windows_loop_forward:
  assumes "1 \<le> w"
  shows "windows_loop h w (map int [0..<length h + 1 - nat w]) []
         = Inr (map (\<lambda>i. Min (set (take (nat w) (drop i h)))) [0..<length h + 1 - nat w])"
proof -
  have nonempty: "py_slice h i (i + w) \<noteq> []" if "i \<in> set (map int [0..<length h + 1 - nat w])" for i
  proof -
    from that obtain j where j: "i = int j" "j < length h + 1 - nat w" by auto
    with assms have "j < length h" "0 < nat w" by linarith+
    with j assms show ?thesis
      by (simp add: py_slice_forward nat_add_distrib)
  qed
  have "windows_loop h w (map int [0..<length h + 1 - nat w]) []
        = Inr ([] @ map (\<lambda>i. Min (set (py_slice h i (i + w)))) (map int [0..<length h + 1 - nat w]))"
    using nonempty by (rule windows_loop_all_nonempty)
  also have "\<dots> = Inr (map (\<lambda>i. Min (set (take (nat w) (drop i h)))) [0..<length h + 1 - nat w])"
    using assms by (simp add: py_slice_forward nat_add_distrib)
  finally show ?thesis .
qed

lemma winnowing_fingerprint_forward:
  assumes "1 \<le> k" "1 \<le> w"
  shows "winnowing_fingerprint doc k w = Inr (spec_fingerprint doc (nat k) (nat w))"
proof (cases "int (length (text_for_shingles doc)) < k")
  case True
  then have "length (text_for_shingles doc) < nat k" by linarith
  moreover from assms have "0 < nat w" by linarith
  ultimately have "spec_fingerprint doc (nat k) (nat w) = []"
    by (simp add: spec_fingerprint_def spec_shingles_def spec_winnowing_def)
  with True show ?thesis by (simp add: winnowing_fingerprint_def)
next
  case False
  let ?s = "text_for_shingles doc"
  let ?h = "map sha256_hexdigest (map (\<lambda>i. take (nat k) (drop i ?s)) [0..<length ?s + 1 - nat k])"
  from False assms have len: "nat k \<le> length ?s" by linarith
  then have n: "length ?s - nat k + 1 = length ?s + 1 - nat k" by simp
  have k0: "0 \<le> k" using assms by simp
  have sh: "map (\<lambda>i. py_slice ?s i (i + k)) (py_range (int (length ?s) - k + 1))
            = map (\<lambda>i. take (nat k) (drop i ?s)) [0..<length ?s + 1 - nat k]"
    unfolding py_range_upt [OF k0] by (rule shingles_forward [OF k0])
  have "winnowing_fingerprint doc k w
        = windows_loop ?h w (py_range (int (length ?h) - w + 1)) []"
    unfolding winnowing_fingerprint_def Let_def sh using False by (simp only: if_False)
  also have "py_range (int (length ?h) - w + 1) = map int [0..<length ?h + 1 - nat w]"
    using assms by (intro py_range_upt) simp
  also have "windows_loop ?h w (map int [0..<length ?h + 1 - nat w]) []
             = Inr (map (\<lambda>i. Min (set (take (nat w) (drop i ?h)))) [0..<length ?h + 1 - nat w])"
    using assms(2) by (rule windows_loop_forward)
  also have "map (\<lambda>i. Min (set (take (nat w) (drop i ?h)))) [0..<length ?h + 1 - nat w]
             = spec_winnowing ?h (nat w)"
  proof (cases "length ?h < nat w")
    case True
    then show ?thesis by (simp add: spec_winnowing_def)
  next
    case False
    then have "length ?h + 1 - nat w = length ?h - nat w + 1" by linarith
    with False show ?thesis by (simp only: spec_winnowing_def if_False)
  qed
  also have "?h = map sha256_hexdigest (spec_shingles ?s (nat k))"
  proof -
    from len have "\<not> length ?s < nat k" by simp
    then show ?thesis by (simp only: spec_shingles_def n if_False)
  qed
  finally show ?thesis by (simp add: spec_fingerprint_def)
qed


lemma windows_loop_error: "windows_loop h w idx acc = Inl e \<Longrightarrow> e = ValueError"
  by (induction idx arbitrary: acc) (auto simp: py_min_def split: sum.splits list.splits)

lemma winnowing_fingerprint_error: "winnowing_fingerprint doc k w = Inl e \<Longrightarrow> e = ValueError"
  by (auto simp: winnowing_fingerprint_def Let_def split: if_splits dest: windows_loop_error)

lemma py_range_window_upt:
  "py_range (int n - w + 1) = map int [0..<n + 1 - nat w]" if "1 \<le> w"
proof -
  from that have "nat (int n - w + 1) = n + 1 - nat w" by linarith
  then show ?thesis by (simp add: py_range_def)
qed

lemma winnowing_fingerprint_returns:
  assumes "1 \<le> w"
  shows "\<exists>fs. winnowing_fingerprint doc k w = Inr fs"
proof (cases "int (length (text_for_shingles doc)) < k")
  case True
  then show ?thesis by (simp add: winnowing_fingerprint_def)
next
  case False
  let ?s = "text_for_shingles doc"
  let ?h = "map sha256_hexdigest
              (map (\<lambda>i. py_slice ?s i (i + k)) (py_range (int (length ?s) - k + 1)))"
  have "winnowing_fingerprint doc k w
        = windows_loop ?h w (py_range (int (length ?h) - w + 1)) []"
    unfolding winnowing_fingerprint_def Let_def using False by (simp only: if_False)
  also have "\<dots> = windows_loop ?h w (map int [0..<length ?h + 1 - nat w]) []"
    by (simp only: py_range_window_upt [OF assms])
  finally show ?thesis
    by (simp only: windows_loop_forward [OF assms]) blast
qed

lemma py_range_member: "j < nat m \<Longrightarrow> int j \<in> set (py_range m)"
  by (simp add: py_range_def)

lemma winnowing_fingerprint_fails:
  assumes "w < 1" "k \<le> int (length (text_for_shingles doc))"
  shows "winnowing_fingerprint doc k w = Inl ValueError"
proof -
  let ?s = "text_for_shingles doc"
  let ?h = "map sha256_hexdigest
              (map (\<lambda>i. py_slice ?s i (i + k)) (py_range (int (length ?s) - k + 1)))"
  have len: "1 \<le> length ?h"
    using assms(2) by (simp add: py_range_def)
  have eq: "winnowing_fingerprint doc k w
        = windows_loop ?h w (py_range (int (length ?h) - w + 1)) []"
    unfolding winnowing_fingerprint_def Let_def using assms(2) by (simp only: if_False not_less [symmetric])
  have "nat (- w) < nat (int (length ?h) - w + 1)"
    using assms(1) len by linarith
  then have "int (nat (- w)) \<in> set (py_range (int (length ?h) - w + 1))"
    by (rule py_range_member)
  then have mem: "- w \<in> set (py_range (int (length ?h) - w + 1))"
    using assms(1) by simp
  have "py_slice ?h (- w) (- w + w) = []"
    using assms(1) by (simp add: py_slice_def py_index_def Let_def del: length_map)
  with mem show ?thesis
    unfolding eq by (rule windows_loop_empty_window)
qed

lemma compare_documents_of_fingerprints:
  assumes "winnowing_fingerprint doc1 k w = Inr f1" "winnowing_fingerprint doc2 k w = Inr f2"
  shows "compare_documents doc1 doc2 k w
         = Inr (if f1 = [] \<or> f2 = [] then 0
                else of_nat (card (set f1 \<inter> set f2)) / of_nat (card (set f1 \<union> set f2)) * 100)"
proof (cases "f1 = [] \<or> f2 = []")
  case True
  with assms show ?thesis by (auto simp: compare_documents_def)
next
  case False
  then have "card (set f1 \<union> set f2) \<noteq> 0" by simp
  with False assms show ?thesis
    by (simp add: compare_documents_def py_truediv_def Let_def)
qed

lemma compare_documents_error: "compare_documents doc1 doc2 k w = Inl e \<Longrightarrow> e = ValueError"
proof -
  assume a: "compare_documents doc1 doc2 k w = Inl e"
  show ?thesis
  proof (cases "winnowing_fingerprint doc1 k w")
    case (Inl e1)
    with a winnowing_fingerprint_error [OF Inl] show ?thesis
      by (simp add: compare_documents_def)
  next
    case f1: (Inr f1)
    show ?thesis
    proof (cases "winnowing_fingerprint doc2 k w")
      case (Inl e2)
      with a f1 winnowing_fingerprint_error [OF Inl] show ?thesis
        by (simp add: compare_documents_def)
    next
      case (Inr f2)
      with a f1 show ?thesis
        by (simp add: compare_documents_of_fingerprints)
    qed
  qed
qed

lemma compare_documents_returns:
  assumes "1 \<le> w"
  shows "\<exists>s. compare_documents doc1 doc2 k w = Inr s"
proof -
  from winnowing_fingerprint_returns [OF assms]
  obtain f1 f2 where "winnowing_fingerprint doc1 k w = Inr f1" "winnowing_fingerprint doc2 k w = Inr f2"
    by blast
  then show ?thesis by (simp add: compare_documents_of_fingerprints)
qed

lemma compare_documents_commute:
  "compare_documents doc1 doc2 k w = compare_documents doc2 doc1 k w"
proof (cases "winnowing_fingerprint doc1 k w")
  case e1: (Inl e1)
  then have [simp]: "e1 = ValueError" by (rule winnowing_fingerprint_error)
  show ?thesis
  proof (cases "winnowing_fingerprint doc2 k w")
    case (Inl e2)
    then have "e2 = ValueError" by (rule winnowing_fingerprint_error)
    with e1 Inl show ?thesis by (simp add: compare_documents_def)
  next
    case (Inr f2)
    with e1 show ?thesis by (simp add: compare_documents_def)
  qed
next
  case f1: (Inr f1)
  show ?thesis
  proof (cases "winnowing_fingerprint doc2 k w")
    case (Inl e2)
    then have "e2 = ValueError" by (rule winnowing_fingerprint_error)
    with f1 Inl show ?thesis by (simp add: compare_documents_def)
  next
    case (Inr f2)
    with f1 show ?thesis
      by (simp add: compare_documents_of_fingerprints Int_commute Un_commute disj_commute)
  qed
qed

lemma length_spec_fingerprint:
  "0 < k \<Longrightarrow> 0 < w \<Longrightarrow>
   length (spec_fingerprint doc k w) = length (text_for_shingles doc) + 1 - k + 1 - w"
  by (auto simp: spec_fingerprint_def spec_shingles_def spec_winnowing_def)

lemma compare_documents_self:
  assumes "1 \<le> k" "1 \<le> w"
  shows "compare_documents doc doc k w
         = Inr (if int (length (text_for_shingles doc)) < k + w - 1 then 0 else 100)"
proof -
  let ?fs = "spec_fingerprint doc (nat k) (nat w)"
  have fp: "winnowing_fingerprint doc k w = Inr ?fs"
    using assms by (rule winnowing_fingerprint_forward)
  have "length ?fs = length (text_for_shingles doc) + 1 - nat k + 1 - nat w"
    using assms by (intro length_spec_fingerprint) simp_all
  then have "(?fs = []) = (int (length (text_for_shingles doc)) < k + w - 1)"
    using assms unfolding length_0_conv [symmetric] by linarith
  then show ?thesis
    by (simp add: compare_documents_of_fingerprints [OF fp fp])
qed




lemma inner_loop_returns:
  assumes "1 \<le> w"
  shows "\<exists>new db'. inner_loop sid docs k w i js (sims, db) = (Inr (sims @ new), db')
                   \<and> map index_pair new = map (Pair i) js"
proof (induction js arbitrary: sims db)
  case Nil
  then show ?case by simp
next
  case (Cons j js)
  from compare_documents_returns [OF assms]
  obtain s where s: "compare_documents (doc_text (docs ! i)) (doc_text (docs ! j)) k w = Inr s"
    by blast
  let ?r = "\<lparr>doc1_index = i, doc2_index = j, doc1_name = doc_name (docs ! i),
             doc2_name = doc_name (docs ! j), similarity = s, session_id = sid\<rparr>"
  let ?db = "save_result_to_db db sid (doc_name (docs ! i)) (doc_name (docs ! j))
               (doc_text (docs ! i)) (doc_text (docs ! j)) s"
  from Cons.IH [of "sims @ [?r]" ?db]
  obtain new db' where new:
    "inner_loop sid docs k w i js (sims @ [?r], ?db) = (Inr ((sims @ [?r]) @ new), db')"
    "map index_pair new = map (Pair i) js"
    by blast
  have "inner_loop sid docs k w i (j # js) (sims, db) = (Inr (sims @ (?r # new)), db')"
    using s new(1) by (simp add: Let_def)
  moreover have "map index_pair (?r # new) = map (Pair i) (j # js)"
    using new(2) by (simp add: index_pair_def)
  ultimately show ?case by blast
qed

lemma outer_loop_returns:
  assumes "1 \<le> w"
  shows "\<exists>new db'. outer_loop sid docs k w idx (sims, db) = (Inr (sims @ new), db')
                   \<and> map index_pair new
                       = concat (map (\<lambda>i. map (Pair i) [i + 1..<length docs]) idx)"
proof (induction idx arbitrary: sims db)
  case Nil
  then show ?case by simp
next
  case (Cons i idx)
  from inner_loop_returns [OF assms, of sid docs k i "[i + 1..<length docs]" sims db]
  obtain row db1 where row:
    "inner_loop sid docs k w i [i + 1..<length docs] (sims, db) = (Inr (sims @ row), db1)"
    "map index_pair row = map (Pair i) [i + 1..<length docs]"
    by blast
  from Cons.IH [of "sims @ row" db1]
  obtain new db' where new:
    "outer_loop sid docs k w idx (sims @ row, db1) = (Inr ((sims @ row) @ new), db')"
    "map index_pair new = concat (map (\<lambda>i. map (Pair i) [i + 1..<length docs]) idx)"
    by blast
  have "outer_loop sid docs k w (i # idx) (sims, db) = (Inr (sims @ (row @ new)), db')"
    using row(1) new(1) by simp
  moreover have "map index_pair (row @ new)
                 = concat (map (\<lambda>i. map (Pair i) [i + 1..<length docs]) (i # idx))"
    using row(2) new(2) by simp
  ultimately show ?case by blast
qed

lemma set_all_pairs:
  "set (concat (map (\<lambda>i. map (Pair i) [i + 1..<n]) [0..<n])) = {(i, j). i < j \<and> j < n}"
proof (rule set_eqI)
  fix p :: "nat \<times> nat"
  obtain a b where p: "p = (a, b)" by (cases p)
  have "(a, b) \<in> set (concat (map (\<lambda>i. map (Pair i) [i + 1..<n]) [0..<n])) = (a < b \<and> b < n)"
    by (auto simp: image_iff)
  then show "p \<in> set (concat (map (\<lambda>i. map (Pair i) [i + 1..<n]) [0..<n]))
             \<longleftrightarrow> p \<in> {(i, j). i < j \<and> j < n}"
    by (simp add: p)
qed

lemma sorted_all_pairs:
  "sorted_wrt (<) idx \<Longrightarrow>
   sorted_wrt index_less (concat (map (\<lambda>i. map (Pair i) [i + 1..<n]) idx))"
proof (induction idx)
  case Nil
  then show ?case by simp
next
  case (Cons i idx)
  have row: "sorted_wrt index_less (map (Pair i) [i + 1..<n])"
    by (simp add: sorted_wrt_map index_less_def)
  have cross: "index_less p q"
    if "p \<in> set (map (Pair i) [i + 1..<n])"
      and "q \<in> set (concat (map (\<lambda>i. map (Pair i) [i + 1..<n]) idx))" for p q
    using that Cons.prems by (auto simp: index_less_def)
  from Cons have "sorted_wrt index_less (concat (map (\<lambda>i. map (Pair i) [i + 1..<n]) idx))"
    by simp
  with row cross show ?case
    by (simp add: sorted_wrt_append del: set_concat set_map)
qed

lemma index_less_distinct: "sorted_wrt index_less ps \<Longrightarrow> distinct ps"
  by (induction ps) (auto simp: index_less_def)

lemma length_all_pairs:
  "length (concat (map (\<lambda>i. map (Pair i) [i + 1..<n]) [0..<n])) = n * (n - 1) div 2"
proof -
  have "length (concat (map (\<lambda>i. map (Pair i) [i + 1..<n]) [0..<n]))
        = (\<Sum>i\<leftarrow>[0..<n]. n - Suc i)"
    by (simp add: length_concat comp_def)
  also have "\<dots> = (\<Sum>i<n. n - Suc i)"
    by (simp add: interv_sum_list_conv_sum_set_nat atLeast0LessThan)
  also have "\<dots> = (\<Sum>i<n. i)"
    by (rule sum.nat_diff_reindex)
  also have "\<dots> = n * (n - 1) div 2"
  proof (cases n)
    case 0
    then show ?thesis by simp
  next
    case (Suc m)
    have "2 * (\<Sum>i<Suc m. i) = Suc m * m"
      by (induction m) simp_all
    with Suc show ?thesis by simp
  qed
  finally show ?thesis .
qed

lemma detect_plagiarism_pairs:
  assumes "1 \<le> w"
  shows "\<exists>results. fst (detect_plagiarism sid db docs k w) = Inr results
           \<and> length results = length docs * (length docs - 1) div 2
           \<and> set (map index_pair results) = {(i, j). i < j \<and> j < length docs}
           \<and> list_all (\<lambda>r. doc1_index r < doc2_index r) results
           \<and> sorted_wrt index_less (map index_pair results)
           \<and> distinct (map index_pair results)"
proof -
  from outer_loop_returns [OF assms, of sid docs k "[0..<length docs]" "[]" db]
  obtain results db' where r:
    "detect_plagiarism sid db docs k w = (Inr results, db')"
    "map index_pair results
     = concat (map (\<lambda>i. map (Pair i) [i + 1..<length docs]) [0..<length docs])"
    by (auto simp: detect_plagiarism_def)
  have "length results = length (map index_pair results)" by simp
  also have "\<dots> = length docs * (length docs - 1) div 2"
    unfolding r(2) by (rule length_all_pairs)
  finally have len: "length results = length docs * (length docs - 1) div 2" .
  have srt: "sorted_wrt index_less (map index_pair results)"
    unfolding r(2) by (rule sorted_all_pairs) simp
  have pairs: "set (map index_pair results) = {(i, j). i < j \<and> j < length docs}"
    unfolding r(2) by (rule set_all_pairs)
  have "doc1_index x < doc2_index x" if "x \<in> set results" for x
  proof -
    from that have "index_pair x \<in> set (map index_pair results)" by simp
    then show ?thesis unfolding pairs by (simp add: index_pair_def)
  qed
  then have "list_all (\<lambda>r. doc1_index r < doc2_index r) results"
    by (simp add: list_all_iff)
  moreover have "fst (detect_plagiarism sid db docs k w) = Inr results"
    using r(1) by simp
  moreover note len pairs srt index_less_distinct [OF srt]
  ultimately show ?thesis by (intro exI [of _ results]) simp
qed

section \<open>The hash function on a test vector\<close>

lemma sha256_hexdigest_abc:
  "sha256_hexdigest ''abc'' = ''ba7816bf8f01cfea414140de5dae2223b00361a396177a9cb410ff61f20015ad''"
  by code_simp

section \<open>Dense forms of the example texts\<close>

lemma dense_hello_world: "text_for_shingles ''Hello, World!'' = ''helloworld''"
  by code_simp

lemma dense_abc: "text_for_shingles ''abc'' = ''abc''"
  by code_simp

lemma dense_xyz: "text_for_shingles ''xyz'' = ''xyz''"
  by code_simp

lemma dense_abcde: "text_for_shingles ''abcde'' = ''abcde''"
  by code_simp

lemma dense_abcdefgh: "text_for_shingles ''abcdefgh'' = ''abcdefgh''"
  by code_simp

lemma dense_ab: "text_for_shingles ''ab'' = ''ab''"
  by code_simp




lemmas run_fingerprint =
  winnowing_fingerprint_def py_range_def py_slice_def py_index_def py_min_def upt_conv_Cons





lemma fingerprint_abc_short: "winnowing_fingerprint ''abc'' 5 4 = Inr []"
  by (simp add: winnowing_fingerprint_def dense_abc)

lemma fingerprint_xyz_short: "winnowing_fingerprint ''xyz'' 5 4 = Inr []"
  by (simp add: winnowing_fingerprint_def dense_xyz)

section \<open>The claims\<close>

text \<open>
  C1. For \<open>k \<ge> 1\<close> and \<open>window_size = w \<ge> 1\<close>, \<^const>\<open>winnowing_fingerprint\<close> returns what
  the specification describes: the hashes \<open>h[0..n)\<close> of the \<open>k\<close>-length shingles of the dense
  string at the offsets \<open>0..=len - k\<close>, in order, and for each offset \<open>i\<close> in \<open>0..=n - w\<close> the
  minimum of the window \<open>h[i..i+w)\<close> in the lexicographic order of the hexadecimal strings;
  nothing when \<open>n < w\<close>.
\<close>

theorem fingerprint_follows_specification:
  assumes "1 \<le> k" and "1 \<le> w"
  shows "winnowing_fingerprint doc k w = Inr (spec_fingerprint doc (nat k) (nat w))"
  using assms by (rule winnowing_fingerprint_forward)

theorem fingerprint_follows_specification_witness:
  "(1::int) \<le> 5 \<and> (1::int) \<le> 4
   \<and> winnowing_fingerprint ''Hello, World!'' 5 4 = Inr (spec_fingerprint ''Hello, World!'' 5 4)
   \<and> length (spec_fingerprint ''Hello, World!'' 5 4) = 3"
  using fingerprint_follows_specification [of 5 4 "''Hello, World!''"]
  by (simp add: spec_fingerprint_def spec_shingles_def spec_winnowing_def dense_hello_world)



text \<open>
  C3 (as amended). The code has no check of the parameters and no error of its own. With
  \<open>window_size < 1\<close>, fingerprinting a text whose dense form has at least \<open>k\<close> characters
  raises the \<^verbatim>\<open>ValueError\<close> of \<^verbatim>\<open>min\<close> on an empty window, and comparison raises it when
  either text is such; a text whose dense form is shorter than \<open>k\<close> still gets the empty
  list. With \<open>window_size \<ge> 1\<close> nothing is rejected, whatever \<open>k\<close> is: fingerprinting
  returns a list and comparison a score.
\<close>

theorem invalid_parameters_behaviour:
  "(w < 1 \<and> k \<le> int (length (text_for_shingles doc))
      \<longrightarrow> winnowing_fingerprint doc k w = Inl ValueError)
   \<and> (w < 1 \<and> (k \<le> int (length (text_for_shingles doc1))
                 \<or> k \<le> int (length (text_for_shingles doc2)))
      \<longrightarrow> compare_documents doc1 doc2 k w = Inl ValueError)
   \<and> (int (length (text_for_shingles doc)) < k' \<longrightarrow> winnowing_fingerprint doc k' w = Inr [])
   \<and> (1 \<le> w' \<longrightarrow> (\<exists>fs. winnowing_fingerprint doc k w' = Inr fs)
                   \<and> (\<exists>s. compare_documents doc1 doc2 k w' = Inr s))"
proof (intro conjI impI)
  assume "w < 1 \<and> k \<le> int (length (text_for_shingles doc))"
  then show "winnowing_fingerprint doc k w = Inl ValueError"
    by (simp add: winnowing_fingerprint_fails)
next
  assume a: "w < 1 \<and> (k \<le> int (length (text_for_shingles doc1))
                      \<or> k \<le> int (length (text_for_shingles doc2)))"
  show "compare_documents doc1 doc2 k w = Inl ValueError"
  proof (cases "k \<le> int (length (text_for_shingles doc1))")
    case True
    with a have "winnowing_fingerprint doc1 k w = Inl ValueError"
      by (simp add: winnowing_fingerprint_fails)
    then show ?thesis by (simp add: compare_documents_def)
  next
    case False
    then have "winnowing_fingerprint doc1 k w = Inr []"
      by (simp add: winnowing_fingerprint_def)
    moreover from a False have "winnowing_fingerprint doc2 k w = Inl ValueError"
      by (simp add: winnowing_fingerprint_fails)
    ultimately show ?thesis by (simp add: compare_documents_def)
  qed
next
  assume "int (length (text_for_shingles doc)) < k'"
  then show "winnowing_fingerprint doc k' w = Inr []"
    by (simp add: winnowing_fingerprint_def)
next
  assume "1 \<le> w'"
  then show "\<exists>fs. winnowing_fingerprint doc k w' = Inr fs"
    by (rule winnowing_fingerprint_returns)
next
  assume "1 \<le> w'"
  then show "\<exists>s. compare_documents doc1 doc2 k w' = Inr s"
    by (rule compare_documents_returns)
qed

theorem invalid_parameters_behaviour_witness:
  "((0::int) < 1 \<and> 0 \<le> int (length (text_for_shingles ''ab'')))
   \<and> winnowing_fingerprint ''ab'' 0 0 = Inl ValueError
   \<and> compare_documents ''ab'' ''ac'' 0 0 = Inl ValueError
   \<and> int (length (text_for_shingles ''ab'')) < 5
   \<and> winnowing_fingerprint ''ab'' 5 0 = Inr []
   \<and> (1::int) \<le> 1
   \<and> (\<exists>fs. winnowing_fingerprint ''ab'' 0 1 = Inr fs)
   \<and> (\<exists>s. compare_documents ''ab'' ''ac'' 0 1 = Inr s)"
  using invalid_parameters_behaviour [of 0 0 "''ab''" "''ab''" "''ac''" 5 1]
  by (simp add: dense_ab)

theorem invalid_k_not_rejected:
  "(0::int) < 1
   \<and> winnowing_fingerprint ''ab'' 0 1
       = Inr [sha256_hexdigest [], sha256_hexdigest [], sha256_hexdigest []]
   \<and> compare_documents ''ab'' ''ab'' 0 1 = Inr 100"
proof -
  have fp: "winnowing_fingerprint ''ab'' 0 1
            = Inr [sha256_hexdigest [], sha256_hexdigest [], sha256_hexdigest []]"
    by (simp add: run_fingerprint dense_ab)
  show ?thesis
    by (simp add: fp compare_documents_of_fingerprints [OF fp fp])
qed

text \<open>
  C4 (as amended). For \<open>k \<ge> 1\<close> and \<open>w \<ge> 1\<close>, comparing a text with itself returns 100
  when its dense form has at least \<open>k + w - 1\<close> characters, that is at least \<open>w\<close> shingles
  and so at least one window; when it is shorter, and also when its length is at least \<open>k\<close>
  but below \<open>k + w - 1\<close>, the fingerprint is empty and the result is 0.
\<close>

theorem self_similarity:
  assumes "1 \<le> k" and "1 \<le> w"
  shows "compare_documents doc doc k w
         = Inr (if int (length (text_for_shingles doc)) < k + w - 1 then 0 else 100)"
  using assms by (rule compare_documents_self)

theorem self_similarity_witness:
  "(1::int) \<le> 5 \<and> (1::int) \<le> 4
   \<and> compare_documents ''abcdefgh'' ''abcdefgh'' 5 4 = Inr 100"
  using self_similarity [of 5 4 "''abcdefgh''"] by (simp add: dense_abcdefgh)

theorem self_similarity_counterexample:
  "(5::int) \<le> int (length (text_for_shingles ''abcde''))
   \<and> compare_documents ''abcde'' ''abcde'' 5 4 = Inr 0
   \<and> compare_documents ''abcde'' ''abcde'' 5 4 \<noteq> Inr 100"
proof -
  have "winnowing_fingerprint ''abcde'' 5 4 = Inr []"
    by (simp add: run_fingerprint dense_abcde)
  then have "compare_documents ''abcde'' ''abcde'' 5 4 = Inr 0"
    by (simp add: compare_documents_def)
  then show ?thesis by (simp add: dense_abcde)
qed

text \<open>
  C5. When the dense form of a text is shorter than \<open>k\<close>, \<^const>\<open>winnowing_fingerprint\<close>
  returns the empty list, for every \<open>window_size\<close>, and raises nothing.
\<close>

theorem short_text_empty_fingerprint:
  "int (length (text_for_shingles doc)) < k \<Longrightarrow> winnowing_fingerprint doc k w = Inr []"
  by (simp add: winnowing_fingerprint_def)

theorem short_text_empty_fingerprint_witness:
  "int (length (text_for_shingles ''abc'')) < 5 \<and> winnowing_fingerprint ''abc'' 5 (- 3) = Inr []"
  using short_text_empty_fingerprint [of "''abc''" 5 "- 3"] by (simp add: dense_abc)

text \<open>
  C6. When the fingerprint of either text is empty, \<^const>\<open>compare_documents\<close> returns 0;
  and it never divides by the size of an empty union: no input makes it raise
  \<^verbatim>\<open>ZeroDivisionError\<close>.
\<close>

theorem empty_fingerprint_zero_similarity:
  "compare_documents doc1 doc2 k w \<noteq> Inl ZeroDivisionError
   \<and> (winnowing_fingerprint doc1 k w = Inr f1 \<and> winnowing_fingerprint doc2 k w = Inr f2
        \<and> (set f1 = {} \<or> set f2 = {})
      \<longrightarrow> compare_documents doc1 doc2 k w = Inr 0)"
proof (intro conjI impI)
  show "compare_documents doc1 doc2 k w \<noteq> Inl ZeroDivisionError"
    using compare_documents_error [of doc1 doc2 k w ZeroDivisionError] by auto
next
  assume a: "winnowing_fingerprint doc1 k w = Inr f1 \<and> winnowing_fingerprint doc2 k w = Inr f2
             \<and> (set f1 = {} \<or> set f2 = {})"
  then have "compare_documents doc1 doc2 k w
             = Inr (if f1 = [] \<or> f2 = [] then 0
                    else of_nat (card (set f1 \<inter> set f2)) / of_nat (card (set f1 \<union> set f2)) * 100)"
    by (intro compare_documents_of_fingerprints) simp_all
  with a show "compare_documents doc1 doc2 k w = Inr 0" by auto
qed

theorem empty_fingerprint_zero_similarity_witness:
  "winnowing_fingerprint ''abc'' 5 4 = Inr [] \<and> winnowing_fingerprint ''xyz'' 5 4 = Inr []
   \<and> (set ([] :: string list) = {} \<or> set ([] :: string list) = {})
   \<and> compare_documents ''abc'' ''xyz'' 5 4 \<noteq> Inl ZeroDivisionError
   \<and> compare_documents ''abc'' ''xyz'' 5 4 = Inr 0"
  using empty_fingerprint_zero_similarity [of "''abc''" "''xyz''" 5 4 "[]" "[]"]
    fingerprint_abc_short fingerprint_xyz_short
  by simp

text \<open>
  C7. \<^const>\<open>compare_documents\<close> is symmetric in its two texts, for all parameters: the two
  calls return the same score, or both raise.
\<close>

theorem compare_documents_symmetric:
  "compare_documents a b k w = compare_documents b a k w"
  by (rule compare_documents_commute)

theorem compare_documents_symmetric_witness:
  "compare_documents ''ab'' ''ac'' 1 1 = compare_documents ''ac'' ''ab'' 1 1"
  by (rule compare_documents_symmetric)

text \<open>
  C8. For a sequence of \<open>N\<close> documents (and \<open>window_size \<ge> 1\<close>, so that no comparison
  raises), \<^const>\<open>detect_plagiarism\<close> returns \<open>N * (N - 1) / 2\<close> results: their index pairs are
  exactly the pairs \<open>(i, j)\<close> with \<open>i < j < N\<close>, each result has \<open>doc1_index < doc2_index\<close>, and
  they come in strictly ascending \<open>(i, j)\<close> order, none repeated.
\<close>

theorem batch_covers_every_pair_once:
  assumes "1 \<le> w"
  shows "\<exists>results. fst (detect_plagiarism sid db docs k w) = Inr results
           \<and> length results = length docs * (length docs - 1) div 2
           \<and> set (map index_pair results) = {(i, j). i < j \<and> j < length docs}
           \<and> list_all (\<lambda>r. doc1_index r < doc2_index r) results
           \<and> sorted_wrt index_less (map index_pair results)
           \<and> distinct (map index_pair results)"
  using assms by (rule detect_plagiarism_pairs)

theorem batch_covers_every_pair_once_witness:
  "(1::int) \<le> 4
   \<and> (\<exists>results.
         fst (detect_plagiarism ''s'' []
                [\<lparr>doc_name = ''a'', doc_text = ''abc''\<rparr>, \<lparr>doc_name = ''b'', doc_text = ''xyz''\<rparr>,
                 \<lparr>doc_name = ''c'', doc_text = ''abcde''\<rparr>] 5 4) = Inr results
         \<and> length results = 3
         \<and> set (map index_pair results) = {(i, j). i < j \<and> j < 3}
         \<and> list_all (\<lambda>r. doc1_index r < doc2_index r) results
         \<and> sorted_wrt index_less (map index_pair results)
         \<and> distinct (map index_pair results))"
proof -
  let ?docs = "[\<lparr>doc_name = ''a'', doc_text = ''abc''\<rparr>, \<lparr>doc_name = ''b'', doc_text = ''xyz''\<rparr>,
                 \<lparr>doc_name = ''c'', doc_text = ''abcde''\<rparr>]"
  have w: "(1::int) \<le> 4" by simp
  from batch_covers_every_pair_once [OF w, of "''s''" "[]" ?docs 5]
  obtain results where r: "fst (detect_plagiarism ''s'' [] ?docs 5 4) = Inr results"
    "length results = length ?docs * (length ?docs - 1) div 2"
    "set (map index_pair results) = {(i, j). i < j \<and> j < length ?docs}"
    "list_all (\<lambda>r. doc1_index r < doc2_index r) results"
    "sorted_wrt index_less (map index_pair results)"
    "distinct (map index_pair results)"
    by blast
  from r(2) have "length results = 3" by simp
  moreover have "length ?docs = 3" by simp
  with r(3) have "set (map index_pair results) = {(i, j). i < j \<and> j < 3}" by (simp only:)
  ultimately show ?thesis using w r(1,4,5,6) by (intro conjI exI [of _ results]) simp_all
qed







end
